theory Spec2Isabelle
  imports Main "HOL-Library.Word" "HOL-Library.Multiset"
begin

section \<open>Word-frequency counter: data model\<close>

text \<open>
  The program (src/main.cpp) counts word frequencies of text files in three ways:
  a single-threaded scan, a scan split over \<open>MAX_THREADS\<close> worker threads, and one
  child process per file that reports its number of distinct words through a pipe.

  \<^item> C++ \<open>int\<close> is a 32-bit two's-complement value: \<open>32 word\<close>, read with \<open>sint\<close>.
    Addition wraps; in C++ signed overflow is undefined, so every theorem about the
    value of a counter carries the bound under which no counter overflows.
  \<^item> \<open>size_t\<close> is 64 bits wide (LP64): \<open>64 word\<close> where the source multiplies
    sizes or converts an int to a size. The length of a string or vector is a \<open>nat\<close>.
  \<^item> \<open>std::unordered_map<std::string, int>\<close> is an association list with pairwise
    distinct keys. Its list order stands for the container's iteration order,
    which the C++ standard leaves unspecified: the theorems about the counting
    functions speak of the entries only, and those about the selector hold for
    every order of the list.
  \<^item> \<open>std::string\<close> is \<open>string\<close>, a list of 8-bit characters.
\<close>

type_synonym cint = "32 word"
type_synonym size_t = "64 word"
type_synonym entry = "string \<times> cint"
type_synonym wc_map = "entry list"

definition MAX_THREADS :: nat where
  "MAX_THREADS = 4"

text \<open>
  What the operating system answers: \<open>open_file\<close> is the whole content of a file, or
  \<open>None\<close> when \<open>std::ifstream\<close> cannot open it; \<open>pthread_create\<close> is the return
  code of creating worker \<open>i\<close> for a file (0 is success); \<open>pipe_ok\<close>, \<open>fork_ok\<close>,
  \<open>write_ok\<close> and \<open>read_ok\<close> say whether \<open>pipe\<close>, the \<open>i\<close>-th \<open>fork\<close>, the write
  of child \<open>i\<close> and the \<open>i\<close>-th read of the parent succeed.
\<close>

record os =
  open_file :: "string \<Rightarrow> string option"
  pthread_create :: "string \<Rightarrow> nat \<Rightarrow> int"
  pipe_ok :: bool
  fork_ok :: "nat \<Rightarrow> bool"
  write_ok :: "nat \<Rightarrow> bool"
  read_ok :: "nat \<Rightarrow> bool"

text \<open>
  \<open>Exit msg\<close> is \<open>exit(1)\<close> after the diagnostic \<open>msg\<close>; \<open>Out_Of_Range\<close> is the
  exception of \<open>std::string::substr\<close>, which nothing catches.
\<close>

datatype error = Exit string | Out_Of_Range

section \<open>Tokenizer\<close>

text \<open>
  \<open>isalpha\<close> and \<open>tolower\<close> in the "C" locale (the program never calls
  \<open>setlocale\<close>): the letters are A-Z (65-90) and a-z (97-122).
\<close>

definition isalpha :: "char \<Rightarrow> bool" where
  "isalpha c = (let n = (of_char c :: nat) in (65 \<le> n \<and> n \<le> 90) \<or> (97 \<le> n \<and> n \<le> 122))"

definition tolower :: "char \<Rightarrow> char" where
  "tolower c = (let n = (of_char c :: nat) in if 65 \<le> n \<and> n \<le> 90 then char_of (n + 32) else c)"

text \<open>
  \<open>m[k] += d\<close> on the unordered map: \<open>operator[]\<close> inserts the key with the value 0
  when it is absent, then the value is increased. \<open>m[k]++\<close> is \<open>add_count k 1 m\<close>.
\<close>

definition add_count :: "string \<Rightarrow> cint \<Rightarrow> wc_map \<Rightarrow> wc_map" where
  "add_count k d m =
     (if k \<in> fst ` set m
      then map (\<lambda>(k', v). if k' = k then (k', v + d) else (k', v)) m
      else m @ [(k, 0 + d)])"

text \<open>
  The scanning loop, the same text at lines 40-48 (worker) and 74-82 (single thread):
  the characters left to read, the word in progress and the map so far. It returns
  the word still in progress at the end of the input together with the map.
\<close>

fun scan_text :: "string \<Rightarrow> string \<Rightarrow> wc_map \<Rightarrow> string \<times> wc_map" where
  "scan_text [] word m = (word, m)"
| "scan_text (c # cs) word m =
     (if isalpha c then scan_text cs (word @ [tolower c]) m
      else if word \<noteq> [] then scan_text cs [] (add_count word 1 m)
      else scan_text cs word m)"

section \<open>Counting engine\<close>

text \<open>
  \<open>count_words\<close>, lines 36-52: the worker's private map, with the word in progress
  at the end of the part counted too (lines 50-52).
\<close>

definition local_word_count :: "string \<Rightarrow> wc_map" where
  "local_word_count text_part =
     (case scan_text text_part [] [] of
        (word, m) \<Rightarrow> if word \<noteq> [] then add_count word 1 m else m)"

text \<open>Lines 55-58: under the lock, every local entry is added to the shared map.\<close>

definition merge_counts :: "wc_map \<Rightarrow> wc_map \<Rightarrow> wc_map" where
  "merge_counts local_count shared = foldl (\<lambda>m (k, v). add_count k v m) shared local_count"

definition count_words :: "string \<Rightarrow> wc_map \<Rightarrow> wc_map" where
  "count_words text_part shared = merge_counts (local_word_count text_part) shared"

text \<open>
  \<open>process_file_single_thread\<close>: the diagnostics written to \<open>std::cerr\<close> and the map.
  After the loop the function returns the map at once (line 83).
\<close>

definition process_file_single_thread :: "os \<Rightarrow> string \<Rightarrow> string list \<times> wc_map" where
  "process_file_single_thread sys filename =
     (case open_file sys filename of
        None \<Rightarrow> ([''Error opening file: '' @ filename], [])
      | Some file_content \<Rightarrow> ([], snd (scan_text file_content [] [])))"

text \<open>
  \<open>substr(pos, n)\<close> throws when \<open>pos\<close> is beyond the end and otherwise returns at
  most \<open>n\<close> characters from \<open>pos\<close>. Part \<open>i\<close> starts at \<open>i * length / MAX_THREADS\<close>
  (the product wraps in \<open>size_t\<close>) and has \<open>length / MAX_THREADS\<close> characters (lines 97-100).
\<close>

definition substr :: "string \<Rightarrow> nat \<Rightarrow> nat \<Rightarrow> string option" where
  "substr s pos n = (if pos > length s then None else Some (take n (drop pos s)))"

definition part_pos :: "nat \<Rightarrow> nat \<Rightarrow> nat" where
  "part_pos i len = unat ((word_of_nat i * word_of_nat len :: size_t) div word_of_nat MAX_THREADS)"

definition part_len :: "nat \<Rightarrow> nat" where
  "part_len len = len div MAX_THREADS"

definition split_parts :: "string \<Rightarrow> string list option" where
  "split_parts file_content =
     those (map (\<lambda>i. substr file_content (part_pos i (length file_content))
                                     (part_len (length file_content)))
                [0..<MAX_THREADS])"

text \<open>
  The workers run concurrently and merge under one mutex, so the merges happen one
  after the other in the order the lock is taken; the model merges in the order of
  the worker index, starting from the empty \<open>total_word_count\<close>.
\<close>

definition run_workers :: "string list \<Rightarrow> wc_map" where
  "run_workers parts = foldl (\<lambda>shared part. count_words part shared) [] parts"

text \<open>
  \<open>process_file_multi_thread\<close>: \<open>exit(1)\<close> when a worker cannot be created,
  otherwise the diagnostics and the shared map after every worker has merged.
\<close>

definition process_file_multi_thread :: "os \<Rightarrow> string \<Rightarrow> error + string list \<times> wc_map" where
  "process_file_multi_thread sys filename =
     (case open_file sys filename of
        None \<Rightarrow> Inr ([''Error opening file: '' @ filename], [])
      | Some file_content \<Rightarrow>
          (case split_parts file_content of
             None \<Rightarrow> Inl Out_Of_Range
           | Some parts \<Rightarrow>
               (case find (\<lambda>i. pthread_create sys filename i \<noteq> 0) [0..<MAX_THREADS] of
                  Some i \<Rightarrow> Inl (Exit ''Error creating thread'')
                | None \<Rightarrow> Inr ([], run_workers parts))))"

section \<open>Top-N selector\<close>

text \<open>
  \<open>std::sort\<close> is library code: the selector takes it as a parameter. The C++
  standard promises a permutation of the input in which no later element goes
  before an earlier one under the comparison, here \<open>a.second > b.second\<close> on
  signed ints; it promises nothing about the order of elements that compare equal.
  The algorithm of the GNU library is the subject of the next section.
\<close>

definition freq_greater :: "entry \<Rightarrow> entry \<Rightarrow> bool" where
  "freq_greater a b = (sint (snd a) > sint (snd b))"

definition sorted_by_freq :: "entry list \<Rightarrow> bool" where
  "sorted_by_freq xs = sorted_wrt (\<lambda>a b. \<not> freq_greater b a) xs"

definition std_sort_ok :: "(entry list \<Rightarrow> entry list) \<Rightarrow> bool" where
  "std_sort_ok std_sort = (\<forall>xs. mset (std_sort xs) = mset xs \<and> sorted_by_freq (std_sort xs))"

text \<open>
  The variables of \<open>get_top_frequent_words\<close>: the caller's map, passed by const
  reference, and the local vector \<open>word_freqs\<close> that is sorted and cut.
\<close>

record selector_vars =
  word_count_map :: wc_map
  word_freqs :: "entry list"

text \<open>
  The comparison \<open>word_freqs.size() > top_n\<close> (line 131) converts the int to
  \<open>size_t\<close>: sign extension to 64 bits, read unsigned. The size of the vector
  is its exact length. \<open>resize\<close> converts the int the same way; it is reached
  only when it shortens the vector.
\<close>

definition size_t_of_int :: "cint \<Rightarrow> size_t" where
  "size_t_of_int n = scast n"

definition get_top_frequent_words_vars ::
    "(entry list \<Rightarrow> entry list) \<Rightarrow> wc_map \<Rightarrow> cint \<Rightarrow> selector_vars" where
  "get_top_frequent_words_vars std_sort m top_n =
     (let v0 = \<lparr>word_count_map = m, word_freqs = m\<rparr>;
          v1 = v0\<lparr>word_freqs := std_sort (word_freqs v0)\<rparr>
      in if int (length (word_freqs v1)) > uint (size_t_of_int top_n)
         then v1\<lparr>word_freqs := take (unat (size_t_of_int top_n)) (word_freqs v1)\<rparr>
         else v1)"

definition get_top_frequent_words ::
    "(entry list \<Rightarrow> entry list) \<Rightarrow> wc_map \<Rightarrow> cint \<Rightarrow> entry list" where
  "get_top_frequent_words std_sort m top_n =
     word_freqs (get_top_frequent_words_vars std_sort m top_n)"

section \<open>The sort of the C++ library\<close>

text \<open>
  \<open>std::sort\<close> as the GNU C++ library implements it (libstdc++, headers
  \<open>bits/stl_algo.h\<close> and \<open>bits/stl_heap.h\<close>), function by function under the
  library's names without their leading underscores. The vector is a list, the
  iterators \<open>first\<close> and \<open>lst\<close> (the library's \<open>__last\<close>) are indices into it, and
  \<open>cmp\<close> is the comparison. The library's "unguarded" loops have no bounds check:
  where they would leave the vector (undefined behaviour, which a call from
  \<open>std::sort\<close> never reaches) the loops of the model stop.

  \<open>__lg n\<close> is the position of the highest bit of \<open>n\<close>.
\<close>

definition iter_swap :: "nat \<Rightarrow> nat \<Rightarrow> 'a list \<Rightarrow> 'a list" where
  "iter_swap i j v = v[i := v ! j, j := v ! i]"

function lg :: "nat \<Rightarrow> nat" where
  "lg n = (if n < 2 then 0 else Suc (lg (n div 2)))"
  by pat_completeness auto
termination
  by (relation "measure id") auto

declare lg.simps [simp del]

text \<open>
  \<open>__unguarded_linear_insert\<close>: the value \<open>val\<close> taken from position \<open>lst\<close> moves
  left past every element it goes before:
  \<^verbatim>\<open>while (comp(val, *next)) { *last = *next; last = next; --next; }  *last = val;\<close>
\<close>

function unguarded_linear_insert :: "('a \<Rightarrow> 'a \<Rightarrow> bool) \<Rightarrow> 'a \<Rightarrow> nat \<Rightarrow> 'a list \<Rightarrow> 'a list" where
  "unguarded_linear_insert cmp val lst v =
     (if 0 < lst \<and> cmp val (v ! (lst - 1))
      then unguarded_linear_insert cmp val (lst - 1) (v[lst := v ! (lst - 1)])
      else v[lst := val])"
  by pat_completeness auto
termination
  by (relation "measure (\<lambda>(cmp, val, lst, v). lst)") auto

declare unguarded_linear_insert.simps [simp del]

text \<open>
  \<open>__insertion_sort\<close>: for \<open>i\<close> from \<open>first + 1\<close> to \<open>lst - 1\<close>, an element that
  goes before the first one is moved to the front (\<open>move_backward\<close> shifts the
  elements in between by one), any other is inserted by the unguarded loop.
\<close>

definition insertion_sort :: "('a \<Rightarrow> 'a \<Rightarrow> bool) \<Rightarrow> nat \<Rightarrow> nat \<Rightarrow> 'a list \<Rightarrow> 'a list" where
  "insertion_sort cmp first lst v =
     (if first = lst then v
      else foldl (\<lambda>v i.
             if cmp (v ! i) (v ! first)
             then take first v @ v ! i # take (i - first) (drop first v) @ drop (Suc i) v
             else unguarded_linear_insert cmp (v ! i) i v)
           v [Suc first..<lst])"

definition unguarded_insertion_sort :: "('a \<Rightarrow> 'a \<Rightarrow> bool) \<Rightarrow> nat \<Rightarrow> nat \<Rightarrow> 'a list \<Rightarrow> 'a list" where
  "unguarded_insertion_sort cmp first lst v =
     foldl (\<lambda>v i. unguarded_linear_insert cmp (v ! i) i v) v [first..<lst]"

text \<open>\<open>__final_insertion_sort\<close>, with the library's \<open>_S_threshold = 16\<close>.\<close>

definition final_insertion_sort :: "('a \<Rightarrow> 'a \<Rightarrow> bool) \<Rightarrow> nat \<Rightarrow> nat \<Rightarrow> 'a list \<Rightarrow> 'a list" where
  "final_insertion_sort cmp first lst v =
     (if lst - first > 16
      then unguarded_insertion_sort cmp (first + 16) lst (insertion_sort cmp first (first + 16) v)
      else insertion_sort cmp first lst v)"

text \<open>
  \<open>__move_median_to_first\<close> swaps the median of the elements at \<open>a\<close>, \<open>b\<close> and \<open>c\<close>
  to the position \<open>result\<close>.
\<close>

definition move_median_to_first ::
    "('a \<Rightarrow> 'a \<Rightarrow> bool) \<Rightarrow> nat \<Rightarrow> nat \<Rightarrow> nat \<Rightarrow> nat \<Rightarrow> 'a list \<Rightarrow> 'a list" where
  "move_median_to_first cmp result a b c v =
     (if cmp (v ! a) (v ! b)
      then (if cmp (v ! b) (v ! c) then iter_swap result b v
            else if cmp (v ! a) (v ! c) then iter_swap result c v
            else iter_swap result a v)
      else if cmp (v ! a) (v ! c) then iter_swap result a v
      else if cmp (v ! b) (v ! c) then iter_swap result c v
      else iter_swap result b v)"

text \<open>
  \<open>__unguarded_partition\<close>:
  \<^verbatim>\<open>while (true) { while (comp(*first, *pivot)) ++first;
                 --last; while (comp(*pivot, *last)) --last;
                 if (!(first < last)) return first;
                 iter_swap(first, last); ++first; }\<close>
  The two inner loops are \<open>skip_up\<close> and \<open>skip_down\<close>.
\<close>

function skip_up :: "('a \<Rightarrow> 'a \<Rightarrow> bool) \<Rightarrow> 'a list \<Rightarrow> nat \<Rightarrow> nat \<Rightarrow> nat" where
  "skip_up cmp v pivot first =
     (if first < length v \<and> cmp (v ! first) (v ! pivot)
      then skip_up cmp v pivot (Suc first) else first)"
  by pat_completeness auto
termination
  by (relation "measure (\<lambda>(cmp, v, pivot, first). length v - first)") auto

declare skip_up.simps [simp del]

function skip_down :: "('a \<Rightarrow> 'a \<Rightarrow> bool) \<Rightarrow> 'a list \<Rightarrow> nat \<Rightarrow> nat \<Rightarrow> nat" where
  "skip_down cmp v pivot lst =
     (if 0 < lst \<and> cmp (v ! pivot) (v ! lst)
      then skip_down cmp v pivot (lst - 1) else lst)"
  by pat_completeness auto
termination
  by (relation "measure (\<lambda>(cmp, v, pivot, lst). lst)") auto

declare skip_down.simps [simp del]

lemma skip_up_ge: "first \<le> skip_up cmp v pivot first"
  by (induction cmp v pivot first rule: skip_up.induct) (subst skip_up.simps, auto)

lemma skip_down_le: "skip_down cmp v pivot lst \<le> lst"
  by (induction cmp v pivot lst rule: skip_down.induct) (subst skip_down.simps, auto)

function unguarded_partition ::
    "('a \<Rightarrow> 'a \<Rightarrow> bool) \<Rightarrow> nat \<Rightarrow> nat \<Rightarrow> nat \<Rightarrow> 'a list \<Rightarrow> nat \<times> 'a list" where
  "unguarded_partition cmp first lst pivot v =
     (let first' = skip_up cmp v pivot first;
          lst' = skip_down cmp v pivot (lst - 1)
      in if \<not> first' < lst' then (first', v)
         else unguarded_partition cmp (Suc first') lst' pivot (iter_swap first' lst' v))"
  by pat_completeness auto
termination
proof (relation "measure (\<lambda>(cmp, first, lst, pivot, v). lst - first)")
  show "wf (measure (\<lambda>(cmp, first, lst, pivot, v). lst - first))"
    by simp
next
  fix cmp :: "'a \<Rightarrow> 'a \<Rightarrow> bool" and first lst pivot :: nat and v :: "'a list" and first' lst'
  assume "first' = skip_up cmp v pivot first" and "lst' = skip_down cmp v pivot (lst - 1)"
    and "\<not> \<not> first' < lst'"
  then show "((cmp, Suc first', lst', pivot, iter_swap first' lst' v), (cmp, first, lst, pivot, v))
      \<in> measure (\<lambda>(cmp, first, lst, pivot, v). lst - first)"
    using skip_up_ge [of first cmp v pivot] skip_down_le [of cmp v pivot "lst - 1"] by simp
qed

declare unguarded_partition.simps [simp del]

text \<open>
  \<open>__unguarded_partition_pivot\<close>: the median of the second, the middle and the
  last element becomes the pivot at \<open>first\<close>; the rest is partitioned around it.
\<close>

definition unguarded_partition_pivot ::
    "('a \<Rightarrow> 'a \<Rightarrow> bool) \<Rightarrow> nat \<Rightarrow> nat \<Rightarrow> 'a list \<Rightarrow> nat \<times> 'a list" where
  "unguarded_partition_pivot cmp first lst v =
     (let mid = first + (lst - first) div 2
      in unguarded_partition cmp (first + 1) lst first
           (move_median_to_first cmp first (first + 1) mid (lst - 1) v))"

text \<open>
  The heap functions of \<open>bits/stl_heap.h\<close>, on the range that starts at \<open>first\<close>.
  \<open>__push_heap\<close> moves the hole up while the parent goes before \<open>val\<close>:
  \<^verbatim>\<open>parent = (holeIndex - 1) / 2;
  while (holeIndex > topIndex && comp(first + parent, value)) {
    *(first + holeIndex) = *(first + parent); holeIndex = parent; parent = (holeIndex - 1) / 2; }
  *(first + holeIndex) = value;\<close>
\<close>

function push_heap ::
    "('a \<Rightarrow> 'a \<Rightarrow> bool) \<Rightarrow> nat \<Rightarrow> nat \<Rightarrow> nat \<Rightarrow> 'a \<Rightarrow> 'a list \<Rightarrow> 'a list" where
  "push_heap cmp first holeIndex topIndex val v =
     (let parent = (holeIndex - 1) div 2
      in if holeIndex > topIndex \<and> cmp (v ! (first + parent)) val
         then push_heap cmp first parent topIndex val (v[first + holeIndex := v ! (first + parent)])
         else v[first + holeIndex := val])"
  by pat_completeness auto
termination
  by (relation "measure (\<lambda>(cmp, first, holeIndex, topIndex, val, v). holeIndex)") auto

declare push_heap.simps [simp del]

text \<open>
  \<open>__adjust_heap\<close>. Its first loop moves the hole down to the larger child (at the
  head of the loop \<open>holeIndex\<close> equals \<open>secondChild\<close>):
  \<^verbatim>\<open>while (secondChild < (len - 1) / 2) {
    secondChild = 2 * (secondChild + 1);
    if (comp(first + secondChild, first + (secondChild - 1))) secondChild--;
    *(first + holeIndex) = *(first + secondChild); holeIndex = secondChild; }
  if ((len & 1) == 0 && secondChild == (len - 2) / 2) {
    secondChild = 2 * (secondChild + 1);
    *(first + holeIndex) = *(first + (secondChild - 1)); holeIndex = secondChild - 1; }
  __push_heap(first, holeIndex, topIndex, value, comp);\<close>
  The distances are signed in the library: for \<open>len >= 2\<close> the natural-number
  \<open>(len - 2) div 2\<close> is the library's value, and for \<open>len = 0\<close> the test fails.
\<close>

function sift_hole :: "('a \<Rightarrow> 'a \<Rightarrow> bool) \<Rightarrow> nat \<Rightarrow> nat \<Rightarrow> nat \<Rightarrow> 'a list \<Rightarrow> nat \<times> 'a list" where
  "sift_hole cmp first len secondChild v =
     (if secondChild < (len - 1) div 2
      then (let right = 2 * (secondChild + 1);
                child = (if cmp (v ! (first + right)) (v ! (first + (right - 1)))
                         then right - 1 else right)
            in sift_hole cmp first len child (v[first + secondChild := v ! (first + child)]))
      else (secondChild, v))"
  by pat_completeness auto
termination
  by (relation "measure (\<lambda>(cmp, first, len, secondChild, v). len - secondChild)") auto

declare sift_hole.simps [simp del]

definition adjust_heap ::
    "('a \<Rightarrow> 'a \<Rightarrow> bool) \<Rightarrow> nat \<Rightarrow> nat \<Rightarrow> nat \<Rightarrow> 'a \<Rightarrow> 'a list \<Rightarrow> 'a list" where
  "adjust_heap cmp first holeIndex len val v =
     (case sift_hole cmp first len holeIndex v of
        (secondChild, v1) \<Rightarrow>
          if even len \<and> 2 \<le> len \<and> secondChild = (len - 2) div 2
          then push_heap cmp first (2 * (secondChild + 1) - 1) holeIndex val
                 (v1[first + secondChild := v1 ! (first + (2 * (secondChild + 1) - 1))])
          else push_heap cmp first secondChild holeIndex val v1)"

text \<open>
  \<open>__make_heap\<close> adjusts every parent from \<open>(len - 2) / 2\<close> down to 0;
  \<open>__pop_heap\<close> puts the top at \<open>result\<close> and sifts the value that was there;
  \<open>__heap_select\<close>, \<open>__sort_heap\<close> and \<open>__partial_sort\<close> are the heap sort the
  library falls back on.
\<close>

definition make_heap :: "('a \<Rightarrow> 'a \<Rightarrow> bool) \<Rightarrow> nat \<Rightarrow> nat \<Rightarrow> 'a list \<Rightarrow> 'a list" where
  "make_heap cmp first lst v =
     (if lst - first < 2 then v
      else foldl (\<lambda>v parent. adjust_heap cmp first parent (lst - first) (v ! (first + parent)) v)
             v (rev [0..<Suc ((lst - first - 2) div 2)]))"

definition pop_heap :: "('a \<Rightarrow> 'a \<Rightarrow> bool) \<Rightarrow> nat \<Rightarrow> nat \<Rightarrow> nat \<Rightarrow> 'a list \<Rightarrow> 'a list" where
  "pop_heap cmp first lst result v =
     adjust_heap cmp first 0 (lst - first) (v ! result) (v[result := v ! first])"

definition heap_select :: "('a \<Rightarrow> 'a \<Rightarrow> bool) \<Rightarrow> nat \<Rightarrow> nat \<Rightarrow> nat \<Rightarrow> 'a list \<Rightarrow> 'a list" where
  "heap_select cmp first middle lst v =
     foldl (\<lambda>v i. if cmp (v ! i) (v ! first) then pop_heap cmp first middle i v else v)
       (make_heap cmp first middle v) [middle..<lst]"

definition sort_heap :: "('a \<Rightarrow> 'a \<Rightarrow> bool) \<Rightarrow> nat \<Rightarrow> nat \<Rightarrow> 'a list \<Rightarrow> 'a list" where
  "sort_heap cmp first lst v =
     foldl (\<lambda>v l. pop_heap cmp first l l v) v (rev [Suc first..<lst])"

definition partial_sort :: "('a \<Rightarrow> 'a \<Rightarrow> bool) \<Rightarrow> nat \<Rightarrow> nat \<Rightarrow> nat \<Rightarrow> 'a list \<Rightarrow> 'a list" where
  "partial_sort cmp first middle lst v =
     sort_heap cmp first middle (heap_select cmp first middle lst v)"

text \<open>
  \<open>__introsort_loop\<close>:
  \<^verbatim>\<open>while (last - first > 16) {
    if (depth_limit == 0) { __partial_sort(first, last, last, comp); return; }
    --depth_limit;
    cut = __unguarded_partition_pivot(first, last, comp);
    __introsort_loop(cut, last, depth_limit, comp);
    last = cut; }\<close>
  The upper part is sorted by the recursive call, the loop goes on with the lower.
\<close>

fun introsort_loop :: "('a \<Rightarrow> 'a \<Rightarrow> bool) \<Rightarrow> nat \<Rightarrow> nat \<Rightarrow> nat \<Rightarrow> 'a list \<Rightarrow> 'a list" where
  "introsort_loop cmp first lst 0 v =
     (if lst - first > 16 then partial_sort cmp first lst lst v else v)"
| "introsort_loop cmp first lst (Suc depth_limit) v =
     (if lst - first > 16
      then (case unguarded_partition_pivot cmp first lst v of
              (cut_at, v1) \<Rightarrow>
                introsort_loop cmp first cut_at depth_limit
                  (introsort_loop cmp cut_at lst depth_limit v1))
      else v)"

text \<open>
  \<open>std::sort(first, last, comp)\<close>:
  \<^verbatim>\<open>if (first != last) { __introsort_loop(first, last, __lg(last - first) * 2, comp);
                        __final_insertion_sort(first, last, comp); }\<close>
\<close>

definition libstdcxx_sort :: "('a \<Rightarrow> 'a \<Rightarrow> bool) \<Rightarrow> 'a list \<Rightarrow> 'a list" where
  "libstdcxx_sort cmp v =
     (if v = [] then v
      else final_insertion_sort cmp 0 (length v)
             (introsort_loop cmp 0 (length v) (2 * lg (length v)) v))"

text \<open>Lines 127-129: the vector sorted with the comparison \<open>a.second > b.second\<close>.\<close>

definition sort_word_freqs :: "entry list \<Rightarrow> entry list" where
  "sort_word_freqs v = libstdcxx_sort freq_greater v"

section \<open>Callers: the comparison loop and the process orchestrator\<close>

text \<open>
  What \<open>compare_performance\<close> prints, without the elapsed times: the file being
  processed, the diagnostics of the two counting paths and the verdict of
  \<open>word_count_single == word_count_multi\<close>. Two unordered maps are equal when they
  hold the same entries.
\<close>

datatype event = Processing string | Cerr string | Results_match string | Results_mismatch string

fun compare_performance :: "os \<Rightarrow> string list \<Rightarrow> error + event list" where
  "compare_performance sys [] = Inr []"
| "compare_performance sys (file # files) =
     (case process_file_single_thread sys file of
        (diag_single, word_count_single) \<Rightarrow>
          (case process_file_multi_thread sys file of
             Inl e \<Rightarrow> Inl e
           | Inr (diag_multi, word_count_multi) \<Rightarrow>
               (case compare_performance sys files of
                  Inl e \<Rightarrow> Inl e
                | Inr rest \<Rightarrow>
                    Inr (Processing file # map Cerr diag_single @ map Cerr diag_multi @
                         (if set word_count_single = set word_count_multi
                          then Results_match file else Results_mismatch file) # rest))))"

text \<open>
  The child forked for file \<open>i\<close> (lines 181-201): it counts with the multi-threaded
  path, converts \<open>word_count.size()\<close> to int and writes these four bytes to the
  pipe. \<open>None\<close>: the child left with \<open>exit(1)\<close> and wrote nothing.
\<close>

definition child_report :: "os \<Rightarrow> nat \<Rightarrow> string \<Rightarrow> cint option" where
  "child_report sys i file =
     (case process_file_multi_thread sys file of
        Inl e \<Rightarrow> None
      | Inr (diag, word_count) \<Rightarrow>
          if write_ok sys i then Some (word_of_nat (length word_count)) else None)"

text \<open>
  The parent's loop (lines 207-218) over the files left, with the reports waiting in
  the pipe, the variable \<open>word_count\<close> and the running \<open>total_count\<close>. A read
  takes the oldest report; at end of file (every child has left, nothing is
  waiting) \<open>read\<close> returns 0 and \<open>word_count\<close> keeps its value. The result is
  the list of printed (file, count) lines and the total.
\<close>

fun collect_reports ::
    "os \<Rightarrow> nat \<Rightarrow> string list \<Rightarrow> cint list \<Rightarrow> cint \<Rightarrow> cint \<Rightarrow> error + (string \<times> cint) list \<times> cint" where
  "collect_reports sys i [] pipe word_count total_count = Inr ([], total_count)"
| "collect_reports sys i (file # files) pipe word_count total_count =
     (if \<not> read_ok sys i then Inl (Exit ''Error reading from pipe'')
      else
        (case (case pipe of [] \<Rightarrow> (word_count, []) | v # rest \<Rightarrow> (v, rest)) of
           (word_count', pipe') \<Rightarrow>
             (case collect_reports sys (Suc i) files pipe' word_count' (total_count + word_count') of
                Inl e \<Rightarrow> Inl e
              | Inr (rows, sum_count) \<Rightarrow> Inr ((file, word_count') # rows, sum_count))))"

text \<open>
  \<open>process_files_with_fork\<close>. The children run concurrently: \<open>arrival\<close> lists the
  indices of the children in the order in which their writes reach the pipe (each
  write is four bytes, hence atomic). \<open>garbage\<close> is the value of the uninitialised
  variable \<open>word_count\<close>.
\<close>

definition process_files_with_fork ::
    "os \<Rightarrow> nat list \<Rightarrow> cint \<Rightarrow> string list \<Rightarrow> error + (string \<times> cint) list \<times> cint" where
  "process_files_with_fork sys arrival garbage files =
     (if \<not> pipe_ok sys then Inl (Exit ''Error creating pipe'')
      else
        (case find (\<lambda>i. \<not> fork_ok sys i) [0..<length files] of
           Some i \<Rightarrow> Inl (Exit ''Error in fork'')
         | None \<Rightarrow>
             collect_reports sys 0 files
               (List.map_filter
                  (\<lambda>j. if j < length files then child_report sys j (files ! j) else None) arrival)
               garbage 0))"

section \<open>Concrete environments for the examples\<close>

text \<open>An operating system holding the listed files, in which every call succeeds.\<close>

definition sunny_os :: "(string \<times> string) list \<Rightarrow> os" where
  "sunny_os disk =
     \<lparr>open_file = map_of disk, pthread_create = (\<lambda>f i. 0), pipe_ok = True,
      fork_ok = (\<lambda>i. True), write_ok = (\<lambda>i. True), read_ok = (\<lambda>i. True)\<rparr>"

text \<open>
  A stable sort by descending count: it meets the contract of \<open>std::sort\<close> and
  keeps entries with equal counts in their input order.
\<close>

definition stable_sort :: "entry list \<Rightarrow> entry list" where
  "stable_sort xs = sort_key (\<lambda>e. - sint (snd e)) xs"

text \<open>A map of seventeen words that occur once each.\<close>

definition seventeen_words :: wc_map where
  "seventeen_words =
     [(''a'', 1), (''b'', 1), (''c'', 1), (''d'', 1), (''e'', 1), (''f'', 1), (''g'', 1),
      (''h'', 1), (''i'', 1), (''j'', 1), (''k'', 1), (''l'', 1), (''m'', 1), (''n'', 1),
      (''o'', 1), (''p'', 1), (''q'', 1)]"

section \<open>Well-formed maps\<close>

text \<open>
  A well-formed map has only nonempty words of lowercase letters as keys and counts
  of at least 1 (as signed ints). \<open>count_mass\<close>, the sum of the counts read
  unsigned, and \<open>good_keys\<close> are what the loops maintain.
\<close>

definition islower :: "char \<Rightarrow> bool" where
  "islower c = (let n = (of_char c :: nat) in 97 \<le> n \<and> n \<le> 122)"

definition well_formed :: "wc_map \<Rightarrow> bool" where
  "well_formed m = list_all (\<lambda>(k, v). k \<noteq> [] \<and> list_all islower k \<and> 1 \<le> sint v) m"

definition count_mass :: "wc_map \<Rightarrow> nat" where
  "count_mass m = sum_list (map (\<lambda>e. unat (snd e)) m)"

definition good_keys :: "wc_map \<Rightarrow> bool" where
  "good_keys m = (distinct (map fst m) \<and> (\<forall>(k, v) \<in> set m. k \<noteq> [] \<and> list_all islower k \<and> 1 \<le> unat v))"

text \<open>The count a map holds for a word, 0 when the word is absent.\<close>

definition count_of :: "wc_map \<Rightarrow> string \<Rightarrow> cint" where
  "count_of m k = (case map_of m k of None \<Rightarrow> 0 | Some v \<Rightarrow> v)"

section \<open>Tie order, in the words of the specification\<close>

text \<open>
  The specification's tie-break rule: the entries of the output that carry one
  count \<open>c\<close> stand in the order in which the input lists them.
\<close>

definition ties_in_input_order :: "entry list \<Rightarrow> entry list \<Rightarrow> bool" where
  "ties_in_input_order inp out =
     list_all (\<lambda>c. filter (\<lambda>e. snd e = c) out = filter (\<lambda>e. e \<in> set out \<and> snd e = c) inp)
              (map snd out)"

section \<open>The two counting paths on concrete buffers\<close>

text \<open>
  Claim C1 (partition invariance). The claim: when the length of the buffer is a
  multiple of the worker count, the multi-threaded path yields the same mapping as
  the single-threaded scan. The code does not: on the twelve characters
  \<open>the cat sat \<close> the parts are \<open>the\<close>, \<open> ca\<close>, \<open>t s\<close> and \<open>at \<close>, every worker
  counts the pieces of the words cut at its borders as words of their own, and
  \<open>compare_performance\<close>, whose comment says the word counts should match, prints
  a mismatch.
\<close>

theorem multi_thread_splits_words:
  "process_file_multi_thread (sunny_os [(''f'', ''the cat sat '')]) ''f''
     = Inr ([], [(''the'', 1), (''ca'', 1), (''t'', 1), (''s'', 1), (''at'', 1)])
   \<and> process_file_single_thread (sunny_os [(''f'', ''the cat sat '')]) ''f''
     = ([], [(''the'', 1), (''cat'', 1), (''sat'', 1)])
   \<and> compare_performance (sunny_os [(''f'', ''the cat sat '')]) [''f'']
     = Inr [Processing ''f'', Results_mismatch ''f'']"
  by code_simp

text \<open>
  Claim C2 (a word in progress is counted at the end of the input). The worker's
  scan does so (lines 50-52); the single-threaded scan returns right after its
  loop, so the last \<open>hello\<close> of \<open>Hello, World! 123 hello\<close> is lost and the count
  of \<open>hello\<close> is 1 where the claim says 2.
\<close>

theorem single_thread_drops_last_word:
  "process_file_single_thread (sunny_os [(''f'', ''Hello, World! 123 hello'')]) ''f''
     = ([], [(''hello'', 1), (''world'', 1)])
   \<and> local_word_count ''Hello, World! 123 hello'' = [(''hello'', 2), (''world'', 1)]"
  by code_simp

text \<open>
  Claim C3 (the parts are contiguous and cover the buffer, the last one taking the
  remainder). Every part has \<open>length / MAX_THREADS\<close> characters, the last one too,
  and part \<open>i\<close> starts at \<open>i * length / MAX_THREADS\<close>: of \<open>abcdef\<close> the parts are
  \<open>a\<close>, \<open>b\<close>, \<open>d\<close> and \<open>e\<close>. The character \<open>c\<close> in the middle and the last
  character \<open>f\<close> are in no part.
\<close>

theorem split_parts_drops_characters:
  "split_parts ''abcdef'' = Some [''a'', ''b'', ''d'', ''e'']"
  by code_simp

section \<open>The selector\<close>

subsection \<open>Converting the requested size\<close>

lemma sint_size_t_of_int: "sint (size_t_of_int n) = sint n"
  by (simp add: size_t_of_int_def sint_up_scast is_up)

lemma uint_size_t_of_int_nonneg:
  assumes "0 \<le> sint n"
  shows "uint (size_t_of_int n) = sint n"
proof -
  have "sint n < 2 ^ 31"
    using sint_lt [of n] by simp
  then have "sint n < 2 ^ 64"
    by (rule less_trans) simp
  have "uint (size_t_of_int n) = take_bit 64 (sint n)"
    using uint_sint [of "size_t_of_int n"] by (simp add: sint_size_t_of_int)
  also have "\<dots> = sint n"
    using assms \<open>sint n < 2 ^ 64\<close> by (simp add: take_bit_int_eq_self)
  finally show ?thesis .
qed

lemma uint_size_t_of_int_neg:
  assumes "sint n < 0"
  shows "uint (size_t_of_int n) = 2 ^ 64 + sint n"
proof -
  have lo: "- (2 ^ 31) \<le> sint n"
    using sint_ge [of n] by simp
  have "uint (size_t_of_int n) = take_bit 64 (sint n)"
    using uint_sint [of "size_t_of_int n"] by (simp add: sint_size_t_of_int)
  also have "\<dots> = (sint n + 2 ^ 64) mod 2 ^ 64"
    by (simp add: take_bit_eq_mod)
  also have "\<dots> = sint n + 2 ^ 64"
    using lo assms by (intro mod_pos_pos_trivial) simp_all
  finally show ?thesis by simp
qed

lemma get_top_frequent_words_unfold:
  "get_top_frequent_words std_sort m top_n =
     (if int (length (std_sort m)) > uint (size_t_of_int top_n)
      then take (unat (size_t_of_int top_n)) (std_sort m) else std_sort m)"
  by (simp add: get_top_frequent_words_def get_top_frequent_words_vars_def Let_def)

lemma std_sort_ok_mset: "std_sort_ok std_sort \<Longrightarrow> mset (std_sort xs) = mset xs"
  by (simp add: std_sort_ok_def)

lemma std_sort_ok_sorted: "std_sort_ok std_sort \<Longrightarrow> sorted_by_freq (std_sort xs)"
  by (simp add: std_sort_ok_def)

lemma std_sort_ok_length: "std_sort_ok std_sort \<Longrightarrow> length (std_sort xs) = length xs"
  using std_sort_ok_mset [of std_sort xs] by (metis size_mset)

lemma sorted_by_freq_take: "sorted_by_freq xs \<Longrightarrow> sorted_by_freq (take n xs)"
  by (simp add: sorted_by_freq_def sorted_wrt_take)

lemma std_sort_ok_stable_sort: "std_sort_ok stable_sort"
proof -
  have "sorted_wrt (\<lambda>a b. sint (snd b) \<le> sint (snd a)) (sort_key (\<lambda>e. - sint (snd e)) xs)" for xs :: "entry list"
    using sorted_sort_key [of "\<lambda>e. - sint (snd e)" xs]
    by (simp add: sorted_map)
  then show ?thesis
    by (simp add: std_sort_ok_def stable_sort_def sorted_by_freq_def freq_greater_def not_less)
qed

subsection \<open>Boundaries and order\<close>

text \<open>
  Claim C6 (boundary and ordering). With a sort that keeps the promise of
  \<open>std::sort\<close>: for \<open>top_n = 0\<close> the result is empty; for \<open>top_n\<close> greater than the
  size of the map the result holds exactly the entries of the map; and for every
  \<open>top_n \<ge> 0\<close> the result has \<open>min top_n size\<close> entries, with counts in descending
  order.
\<close>

theorem top_n_boundary_and_order:
  assumes "std_sort_ok std_sort"
  shows "get_top_frequent_words std_sort m 0 = []
       \<and> (int (length m) < sint top_n \<longrightarrow> mset (get_top_frequent_words std_sort m top_n) = mset m)
       \<and> (0 \<le> sint top_n \<longrightarrow>
            length (get_top_frequent_words std_sort m top_n) = min (nat (sint top_n)) (length m)
          \<and> sorted_by_freq (get_top_frequent_words std_sort m top_n))"
proof (intro conjI impI)
  show "get_top_frequent_words std_sort m 0 = []"
    using std_sort_ok_length [OF assms, of m]
    by (auto simp add: get_top_frequent_words_unfold size_t_of_int_def)
next
  assume "int (length m) < sint top_n"
  then show "mset (get_top_frequent_words std_sort m top_n) = mset m"
    using std_sort_ok_length [OF assms, of m] std_sort_ok_mset [OF assms, of m]
      uint_size_t_of_int_nonneg [of top_n]
    by (simp add: get_top_frequent_words_unfold)
next
  assume nonneg: "0 \<le> sint top_n"
  then have u: "uint (size_t_of_int top_n) = sint top_n"
    by (rule uint_size_t_of_int_nonneg)
  then have n: "unat (size_t_of_int top_n) = nat (sint top_n)"
    by (simp add: unat_eq_nat_uint)
  show "length (get_top_frequent_words std_sort m top_n) = min (nat (sint top_n)) (length m)"
    using std_sort_ok_length [OF assms, of m] nonneg
    by (auto simp add: get_top_frequent_words_unfold u n)
  show "sorted_by_freq (get_top_frequent_words std_sort m top_n)"
    using std_sort_ok_sorted [OF assms, of m]
    by (simp add: get_top_frequent_words_unfold sorted_by_freq_take)
qed

theorem top_n_boundary_and_order_witness:
  "std_sort_ok stable_sort
   \<and> get_top_frequent_words stable_sort [(''a'', 1), (''b'', 1), (''c'', 2)] 0 = []
   \<and> int (length [(''a'', 1 :: cint), (''b'', 1), (''c'', 2)]) < sint (5 :: cint)
   \<and> mset (get_top_frequent_words stable_sort [(''a'', 1), (''b'', 1), (''c'', 2)] 5)
       = mset [(''a'', 1), (''b'', 1), (''c'', 2)]
   \<and> 0 \<le> sint (2 :: cint)
   \<and> length (get_top_frequent_words stable_sort [(''a'', 1), (''b'', 1), (''c'', 2)] 2)
       = min (nat (sint (2 :: cint))) (length [(''a'', 1 :: cint), (''b'', 1), (''c'', 2)])
   \<and> sorted_by_freq (get_top_frequent_words stable_sort [(''a'', 1), (''b'', 1), (''c'', 2)] 2)"
  using top_n_boundary_and_order [OF std_sort_ok_stable_sort, of "[(''a'', 1), (''b'', 1), (''c'', 2)]" 5]
    top_n_boundary_and_order [OF std_sort_ok_stable_sort, of "[(''a'', 1), (''b'', 1), (''c'', 2)]" 2]
    std_sort_ok_stable_sort
  by simp

text \<open>
  The entries kept: for \<open>top_n \<ge> 0\<close> the output is the sorted vector cut to its
  first \<open>top_n\<close> entries.
\<close>

lemma top_n_is_prefix_of_sorted:
  assumes "0 \<le> sint top_n"
  shows "get_top_frequent_words std_sort m top_n = take (nat (sint top_n)) (std_sort m)"
proof -
  have u: "uint (size_t_of_int top_n) = sint top_n"
    using assms by (rule uint_size_t_of_int_nonneg)
  then have n: "unat (size_t_of_int top_n) = nat (sint top_n)"
    by (simp add: unat_eq_nat_uint)
  show ?thesis
    using assms by (simp add: get_top_frequent_words_unfold u n)
qed

text \<open>
  Claim C9 (negative size). The comparison at line 131 converts a negative \<open>top_n\<close>
  to a \<open>size_t\<close> of at least \<open>2 ^ 64 - 2 ^ 31\<close>, which no vector size exceeds (a
  vector holds fewer than \<open>2 ^ 63\<close> entries): nothing is cut and the whole map
  comes back, sorted by count in descending order.
\<close>

theorem top_n_negative_returns_all:
  assumes "std_sort_ok std_sort" and "sint top_n < 0" and "length m < 2 ^ 63"
  shows "get_top_frequent_words std_sort m top_n = std_sort m
       \<and> mset (get_top_frequent_words std_sort m top_n) = mset m
       \<and> sorted_by_freq (get_top_frequent_words std_sort m top_n)"
proof -
  have "- (2 ^ 31) \<le> sint top_n"
    using sint_ge [of top_n] by simp
  moreover have "int (length m) < 2 ^ 63"
    using assms(3) by (metis of_nat_less_iff of_nat_numeral of_nat_power)
  ultimately have "\<not> int (length (std_sort m)) > uint (size_t_of_int top_n)"
    using std_sort_ok_length [OF assms(1), of m] uint_size_t_of_int_neg [OF assms(2)] by simp
  then have "get_top_frequent_words std_sort m top_n = std_sort m"
    by (simp add: get_top_frequent_words_unfold)
  then show ?thesis
    using std_sort_ok_mset [OF assms(1), of m] std_sort_ok_sorted [OF assms(1), of m] by simp
qed

theorem top_n_negative_returns_all_witness:
  "std_sort_ok stable_sort \<and> sint (- 1 :: cint) < 0
   \<and> length [(''a'', 1 :: cint), (''b'', 1), (''c'', 2)] < 2 ^ 63
   \<and> get_top_frequent_words stable_sort [(''a'', 1), (''b'', 1), (''c'', 2)] (- 1)
       = stable_sort [(''a'', 1), (''b'', 1), (''c'', 2)]
   \<and> mset (get_top_frequent_words stable_sort [(''a'', 1), (''b'', 1), (''c'', 2)] (- 1))
       = mset [(''a'', 1), (''b'', 1), (''c'', 2)]
   \<and> sorted_by_freq (get_top_frequent_words stable_sort [(''a'', 1), (''b'', 1), (''c'', 2)] (- 1))"
proof -
  have neg: "sint (- 1 :: cint) < 0"
    by simp
  have small: "length [(''a'', 1 :: cint), (''b'', 1), (''c'', 2)] < 2 ^ 63"
    by simp
  show ?thesis
    using top_n_negative_returns_all [OF std_sort_ok_stable_sort neg small]
      std_sort_ok_stable_sort neg small
    by blast
qed

subsection \<open>Entries with equal counts\<close>

lemma sorted_by_freq_counts_unique:
  assumes "mset xs = mset ys" and "sorted_by_freq xs" and "sorted_by_freq ys"
  shows "map snd xs = map snd ys"
proof -
  let ?k = "\<lambda>w :: cint. - sint w"
  have inj: "inj ?k"
    by (rule injI) (metis neg_equal_iff_equal signed_word_eqI)
  have sx: "sorted (map ?k (map snd xs))"
    using assms(2) by (simp add: sorted_by_freq_def freq_greater_def sorted_map not_less)
  have sy: "sorted (map ?k (map snd ys))"
    using assms(3) by (simp add: sorted_by_freq_def freq_greater_def sorted_map not_less)
  have "mset (map ?k (map snd xs)) = mset (map ?k (map snd ys))"
    using assms(1) by (metis mset_map)
  then have "sort (map ?k (map snd ys)) = map ?k (map snd xs)"
    using sx by (rule properties_for_sort)
  moreover have "sort (map ?k (map snd ys)) = map ?k (map snd ys)"
    using sy by (simp add: sorted_sort_id)
  ultimately have "map ?k (map snd xs) = map ?k (map snd ys)"
    by simp
  then show ?thesis
    using inj by (simp only: inj_map_eq_map)
qed

lemma same_counts_same_entries:
  assumes "map snd xs = map snd ys" and "set xs \<subseteq> set m" and "set ys \<subseteq> set m"
    and "distinct (map snd m)"
  shows "xs = ys"
proof (rule nth_equalityI)
  show len: "length xs = length ys"
    using assms(1) by (metis length_map)
  fix i assume i: "i < length xs"
  have "snd (xs ! i) = snd (ys ! i)"
    using assms(1) i len by (metis nth_map)
  moreover have "xs ! i \<in> set m" and "ys ! i \<in> set m"
    using assms(2,3) i len by (metis nth_mem subsetD)+
  moreover have "inj_on snd (set m)"
    using assms(4) by (simp add: distinct_map)
  ultimately show "xs ! i = ys ! i"
    by (simp add: inj_on_def)
qed

text \<open>
  Seventeen words that occur once each, in whatever order the map lists them: the
  library's sort returns them in an order that depends on their positions only,
  and it is not the order of the input. (Up to sixteen entries the library sorts
  by insertion alone, which leaves entries with equal counts where they are.)
\<close>

lemma seventeen_once_each:
  "sort_word_freqs
     [(k0, 1), (k1, 1), (k2, 1), (k3, 1), (k4, 1), (k5, 1), (k6, 1), (k7, 1), (k8, 1),
      (k9, 1), (k10, 1), (k11, 1), (k12, 1), (k13, 1), (k14, 1), (k15, 1), (k16, 1)]
   = [(k8, 1), (k16, 1), (k15, 1), (k14, 1), (k13, 1), (k12, 1), (k11, 1), (k10, 1), (k9, 1),
      (k0, 1), (k7, 1), (k6, 1), (k5, 1), (k4, 1), (k3, 1), (k2, 1), (k1, 1)]"
  by code_simp

lemma two_once_each: "sort_word_freqs [(k0, 1), (k1, 1)] = [(k0, 1), (k1, 1)]"
  by code_simp

text \<open>
  Claim C5 (ties keep the iteration order of the map). \<open>std::sort\<close> is not a
  stable sort, and the library's algorithm does reorder entries with equal counts
  once the vector has more than sixteen entries. A file of seventeen different
  words gives a map of seventeen entries with the count 1; of the map that lists
  them from \<open>a\<close> to \<open>q\<close> the selector returns \<open>i\<close>, \<open>q\<close>, \<open>p\<close>, ... as the top ten.
\<close>

theorem top_n_ties_not_stable:
  "snd (process_file_single_thread
          (sunny_os [(''f'', ''a b c d e f g h i j k l m n o p q '')]) ''f'') = seventeen_words
   \<and> get_top_frequent_words sort_word_freqs seventeen_words 10
     = [(''i'', 1), (''q'', 1), (''p'', 1), (''o'', 1), (''n'', 1), (''m'', 1), (''l'', 1),
        (''k'', 1), (''j'', 1), (''a'', 1)]
   \<and> \<not> ties_in_input_order seventeen_words
         (get_top_frequent_words sort_word_freqs seventeen_words 10)"
  by code_simp

text \<open>
  Claim C5 as amended. Whenever the sort returns the entries of the map in
  descending order of count (as \<open>std::sort\<close> promises), the counts of the output
  are in descending order and agree, position by position, with the output under a
  stable sort, which is the order the claim describes. So only entries with equal
  counts can stand in another order than the claim says, and their order is not
  specified. When the counts of the map are pairwise different the output is that
  of the stable sort.
\<close>

theorem top_n_determined_up_to_ties:
  assumes "mset (std_sort m) = mset m" and "sorted_by_freq (std_sort m)"
  shows "sorted_by_freq (get_top_frequent_words std_sort m top_n)
       \<and> map snd (get_top_frequent_words std_sort m top_n)
           = map snd (get_top_frequent_words stable_sort m top_n)
       \<and> (distinct (map snd m) \<longrightarrow>
            get_top_frequent_words std_sort m top_n = get_top_frequent_words stable_sort m top_n)"
proof (intro conjI impI)
  show "sorted_by_freq (get_top_frequent_words std_sort m top_n)"
    using assms(2) by (simp add: get_top_frequent_words_unfold sorted_by_freq_take)
next
  have "mset (std_sort m) = mset (stable_sort m)"
    using assms(1) std_sort_ok_mset [OF std_sort_ok_stable_sort, of m] by simp
  then have counts: "map snd (std_sort m) = map snd (stable_sort m)"
    using assms(2) std_sort_ok_sorted [OF std_sort_ok_stable_sort, of m]
    by (rule sorted_by_freq_counts_unique)
  have len: "length (std_sort m) = length (stable_sort m)"
    using counts by (metis length_map)
  show "map snd (get_top_frequent_words std_sort m top_n)
      = map snd (get_top_frequent_words stable_sort m top_n)"
    using counts len by (simp add: get_top_frequent_words_unfold take_map [symmetric])
  assume "distinct (map snd m)"
  moreover have "set (std_sort m) \<subseteq> set m" and "set (stable_sort m) \<subseteq> set m"
    using assms(1) std_sort_ok_mset [OF std_sort_ok_stable_sort, of m]
    by (metis set_mset_mset subset_refl)+
  ultimately have "std_sort m = stable_sort m"
    using counts by (intro same_counts_same_entries [of _ _ m]) simp_all
  then show "get_top_frequent_words std_sort m top_n = get_top_frequent_words stable_sort m top_n"
    by (simp add: get_top_frequent_words_unfold)
qed

theorem top_n_determined_up_to_ties_witness:
  "mset (sort_word_freqs seventeen_words) = mset seventeen_words
   \<and> sorted_by_freq (sort_word_freqs seventeen_words)
   \<and> sorted_by_freq (get_top_frequent_words sort_word_freqs seventeen_words 10)
   \<and> map snd (get_top_frequent_words sort_word_freqs seventeen_words 10)
       = map snd (get_top_frequent_words stable_sort seventeen_words 10)
   \<and> distinct (map snd [(''a'', 1 :: cint), (''b'', 3), (''c'', 2)])
   \<and> get_top_frequent_words sort_word_freqs [(''a'', 1), (''b'', 3), (''c'', 2)] 2
       = get_top_frequent_words stable_sort [(''a'', 1), (''b'', 3), (''c'', 2)] 2"
proof -
  have sorted17: "sort_word_freqs seventeen_words
      = [(''i'', 1), (''q'', 1), (''p'', 1), (''o'', 1), (''n'', 1), (''m'', 1), (''l'', 1),
         (''k'', 1), (''j'', 1), (''a'', 1), (''h'', 1), (''g'', 1), (''f'', 1), (''e'', 1),
         (''d'', 1), (''c'', 1), (''b'', 1)]"
    by code_simp
  have perm17: "mset (sort_word_freqs seventeen_words) = mset seventeen_words"
    by (simp only: sorted17) (simp add: seventeen_words_def add_mset_commute)
  have desc17: "sorted_by_freq (sort_word_freqs seventeen_words)"
    unfolding sorted17 by (simp add: sorted_by_freq_def freq_greater_def)
  have sorted3: "sort_word_freqs [(''a'', 1), (''b'', 3), (''c'', 2)] = [(''b'', 3), (''c'', 2), (''a'', 1)]"
    by code_simp
  have perm3: "mset (sort_word_freqs [(''a'', 1), (''b'', 3), (''c'', 2)]) = mset [(''a'', 1), (''b'', 3), (''c'', 2)]"
    unfolding sorted3 by (simp add: add_mset_commute)
  have desc3: "sorted_by_freq (sort_word_freqs [(''a'', 1), (''b'', 3), (''c'', 2)])"
    unfolding sorted3 by (simp add: sorted_by_freq_def freq_greater_def)
  have d3: "distinct (map snd [(''a'', 1 :: cint), (''b'', 3), (''c'', 2)])"
    by simp
  show ?thesis
    using top_n_determined_up_to_ties [of sort_word_freqs seventeen_words 10, OF perm17 desc17]
      top_n_determined_up_to_ties [of sort_word_freqs "[(''a'', 1), (''b'', 3), (''c'', 2)]" 2,
        OF perm3 desc3]
      perm17 desc17 d3
    by blast
qed

section \<open>Files that cannot be opened\<close>

text \<open>
  Claim C7 (recoverable I/O failure). For a file that cannot be opened both
  counting paths write the diagnostic and return the empty map; neither leaves the
  program. \<open>compare_performance\<close> then goes on: what it prints for the files that
  follow is what it prints for them alone, and the child forked for such a file
  reports 0.
\<close>

theorem unopenable_file_is_skipped:
  assumes "open_file sys file = None"
  shows "process_file_single_thread sys file = ([''Error opening file: '' @ file], [])
       \<and> process_file_multi_thread sys file = Inr ([''Error opening file: '' @ file], [])
       \<and> compare_performance sys (file # files) =
           map_sum id
             (\<lambda>rest. [Processing file, Cerr (''Error opening file: '' @ file),
                       Cerr (''Error opening file: '' @ file), Results_match file] @ rest)
             (compare_performance sys files)
       \<and> child_report sys i file = (if write_ok sys i then Some 0 else None)"
proof -
  have single: "process_file_single_thread sys file = ([''Error opening file: '' @ file], [])"
    using assms by (simp add: process_file_single_thread_def)
  have multi: "process_file_multi_thread sys file = Inr ([''Error opening file: '' @ file], [])"
    using assms by (simp add: process_file_multi_thread_def)
  have "compare_performance sys (file # files) =
           map_sum id
             (\<lambda>rest. [Processing file, Cerr (''Error opening file: '' @ file),
                       Cerr (''Error opening file: '' @ file), Results_match file] @ rest)
             (compare_performance sys files)"
    by (cases "compare_performance sys files") (simp_all add: single multi)
  moreover have "child_report sys i file = (if write_ok sys i then Some 0 else None)"
    by (simp add: child_report_def multi)
  ultimately show ?thesis
    using single multi by simp
qed

theorem unopenable_file_is_skipped_witness:
  "open_file (sunny_os [(''g'', ''a b '')]) ''missing'' = None
   \<and> process_file_single_thread (sunny_os [(''g'', ''a b '')]) ''missing''
       = ([''Error opening file: missing''], [])
   \<and> process_file_multi_thread (sunny_os [(''g'', ''a b '')]) ''missing''
       = Inr ([''Error opening file: missing''], [])
   \<and> compare_performance (sunny_os [(''g'', ''a b '')]) [''missing'', ''g'']
       = Inr [Processing ''missing'', Cerr ''Error opening file: missing'',
              Cerr ''Error opening file: missing'', Results_match ''missing'',
              Processing ''g'', Results_match ''g'']
   \<and> child_report (sunny_os [(''g'', ''a b '')]) 0 ''missing'' = Some 0"
proof -
  have closed: "open_file (sunny_os [(''g'', ''a b '')]) ''missing'' = None"
    by (simp add: sunny_os_def)
  have rest: "compare_performance (sunny_os [(''g'', ''a b '')]) [''g'']
      = Inr [Processing ''g'', Results_match ''g'']"
    by code_simp
  have w: "write_ok (sunny_os [(''g'', ''a b '')]) 0"
    by (simp add: sunny_os_def)
  show ?thesis
    using unopenable_file_is_skipped [OF closed, of "[''g'']" 0] closed
    by (simp add: rest w del: compare_performance.simps)
qed

section \<open>The process orchestrator\<close>

lemma collect_reports_all_read:
  assumes "\<forall>k < length files. read_ok sys (i + k)" and "length pipe = length files"
  shows "collect_reports sys i files pipe word_count total_count
           = Inr (zip files pipe, total_count + sum_list pipe)"
  using assms
proof (induction files arbitrary: i pipe word_count total_count)
  case Nil
  then show ?case by simp
next
  case (Cons f fs)
  from Cons.prems(2) obtain v rest where pipe: "pipe = v # rest" and len: "length rest = length fs"
    by (cases pipe) auto
  have here: "read_ok sys i"
    using Cons.prems(1) by force
  have later: "\<forall>k < length fs. read_ok sys (Suc i + k)"
  proof (intro allI impI)
    fix k assume "k < length fs"
    then have "Suc k < length (f # fs)" by simp
    then have "read_ok sys (i + Suc k)" using Cons.prems(1) by blast
    then show "read_ok sys (Suc i + k)" by simp
  qed
  show ?case
    using Cons.IH [OF later len, of v "total_count + v"] here
    by (simp add: pipe add.assoc)
qed

lemma map_filter_all_Some:
  assumes "\<forall>x \<in> set xs. f x = Some (g x)"
  shows "List.map_filter f xs = map g xs"
  using assms by (induction xs) (simp_all add: List.map_filter_simps)

lemma sum_list_arrival:
  fixes g :: "nat \<Rightarrow> cint"
  assumes "mset arrival = mset [0..<n]"
  shows "sum_list (map g arrival) = sum_list (map g [0..<n])"
proof -
  have "sum_mset (mset (map g arrival)) = sum_mset (mset (map g [0..<n]))"
    using assms by simp
  then show ?thesis
    by (simp only: sum_mset_sum_list)
qed

text \<open>
  Claim C4 (grand total and per-file reports). The parent prints the \<open>i\<close>-th
  report it reads beside \<open>files[i]\<close>, whichever child wrote it. With the files
  \<open>f\<close> (\<open>a b c d \<close>) and \<open>g\<close> (\<open>x y \<close>) and the child of \<open>g\<close> writing first, it
  prints 2 beside \<open>f\<close> and 4 beside \<open>g\<close>, where single-threaded counting finds 4
  words in \<open>f\<close> and 2 in \<open>g\<close>: the comment at line 212 says the line is the file
  name and the word count of that file. And the child counts with the
  multi-threaded path, which cuts words at the borders of the parts: for
  \<open>the cat sat \<close> it reports 5 where single-threaded counting finds 3 words.
\<close>

theorem fork_report_differs_from_single_thread:
  "process_files_with_fork (sunny_os [(''f'', ''a b c d ''), (''g'', ''x y '')]) [1, 0] 0 [''f'', ''g'']
     = Inr ([(''f'', 2), (''g'', 4)], 6)
   \<and> process_file_single_thread (sunny_os [(''f'', ''a b c d ''), (''g'', ''x y '')]) ''f''
     = ([], [(''a'', 1), (''b'', 1), (''c'', 1), (''d'', 1)])
   \<and> process_file_single_thread (sunny_os [(''f'', ''a b c d ''), (''g'', ''x y '')]) ''g''
     = ([], [(''x'', 1), (''y'', 1)])
   \<and> process_files_with_fork (sunny_os [(''h'', ''the cat sat '')]) [0] 0 [''h'']
     = Inr ([(''h'', 5)], 5)
   \<and> process_file_single_thread (sunny_os [(''h'', ''the cat sat '')]) ''h''
     = ([], [(''the'', 1), (''cat'', 1), (''sat'', 1)])"
  by code_simp

text \<open>
  What does hold of the orchestrator. When the pipe, the forks, the writes and the
  reads succeed and the counting run of every child completes, each child writes
  one int, the number of entries of its multi-threaded map; the \<open>i\<close>-th line shows
  the \<open>i\<close>-th report to arrive, and the grand total is the sum of the reports of
  all files (in 32-bit arithmetic), whatever the order of arrival.
\<close>

theorem fork_total_is_sum_of_reports:
  assumes "pipe_ok sys"
    and "\<forall>i < length files. fork_ok sys i \<and> write_ok sys i \<and> read_ok sys i"
    and "list_all2 (\<lambda>file m. \<exists>diag. process_file_multi_thread sys file = Inr (diag, m)) files maps"
    and "mset arrival = mset [0..<length files]"
  shows "process_files_with_fork sys arrival garbage files
           = Inr (zip files (map (\<lambda>j. word_of_nat (length (maps ! j))) arrival),
                  sum_list (map (\<lambda>m. word_of_nat (length m)) maps))
       \<and> (arrival = [0..<length files] \<longrightarrow>
            map (\<lambda>j. word_of_nat (length (maps ! j)) :: cint) arrival
              = map (\<lambda>m. word_of_nat (length m)) maps)"
proof -
  let ?n = "length files"
  let ?count = "\<lambda>j. word_of_nat (length (maps ! j)) :: cint"
  have len: "length maps = ?n"
    using assms(3) by (simp add: list_all2_lengthD)
  have forks: "find (\<lambda>i. \<not> fork_ok sys i) [0..<?n] = None"
    using assms(2) by (simp add: find_None_iff)
  have "set arrival = set [0..<?n]"
    using assms(4) by (rule mset_eq_setD)
  then have members: "\<forall>j \<in> set arrival. j < ?n"
    by simp
  have child: "\<forall>j \<in> set arrival.
      (if j < ?n then child_report sys j (files ! j) else None) = Some (?count j)"
  proof
    fix j assume "j \<in> set arrival"
    then have j: "j < ?n" using members by blast
    then obtain diag where "process_file_multi_thread sys (files ! j) = Inr (diag, maps ! j)"
      using assms(3) by (auto simp add: list_all2_conv_all_nth)
    then show "(if j < ?n then child_report sys j (files ! j) else None) = Some (?count j)"
      using j assms(2) by (simp add: child_report_def)
  qed
  have pipe: "List.map_filter (\<lambda>j. if j < ?n then child_report sys j (files ! j) else None) arrival
      = map ?count arrival"
    using child by (rule map_filter_all_Some)
  have "length arrival = length [0..<?n]"
    using assms(4) by (rule mset_eq_length)
  then have arrived: "length (map ?count arrival) = ?n"
    by simp
  have reads: "\<forall>k < ?n. read_ok sys (0 + k)"
    using assms(2) by simp
  have "map ?count [0..<length maps]
      = map (\<lambda>m. word_of_nat (length m)) (map (\<lambda>j. maps ! j) [0..<length maps])"
    by simp
  also have "\<dots> = map (\<lambda>m. word_of_nat (length m)) maps"
    by (simp only: map_nth)
  finally have ordered: "map ?count [0..<?n] = map (\<lambda>m. word_of_nat (length m)) maps"
    by (simp only: len)
  have "sum_list (map ?count arrival) = sum_list (map ?count [0..<?n])"
    using assms(4) by (rule sum_list_arrival)
  then have total: "sum_list (map ?count arrival) = sum_list (map (\<lambda>m. word_of_nat (length m)) maps)"
    using ordered by simp
  have "process_files_with_fork sys arrival garbage files
      = Inr (zip files (map ?count arrival), 0 + sum_list (map ?count arrival))"
    using collect_reports_all_read [OF reads arrived, of garbage 0] assms(1) forks
    by (simp only: process_files_with_fork_def pipe) simp
  then show ?thesis
    using total ordered by simp
qed

theorem fork_total_is_sum_of_reports_witness:
  "pipe_ok (sunny_os [(''f'', ''a b c d ''), (''g'', ''x y '')])
   \<and> mset [1, 0] = mset [0..<length [''f'', ''g'']]
   \<and> process_files_with_fork (sunny_os [(''f'', ''a b c d ''), (''g'', ''x y '')]) [1, 0] 0 [''f'', ''g'']
       = Inr ([(''f'', 2), (''g'', 4)], 6)"
proof -
  let ?sys = "sunny_os [(''f'', ''a b c d ''), (''g'', ''x y '')]"
  have h1: "pipe_ok ?sys"
    by (simp add: sunny_os_def)
  have h2: "\<forall>i < length [''f'', ''g'']. fork_ok ?sys i \<and> write_ok ?sys i \<and> read_ok ?sys i"
    by (simp add: sunny_os_def)
  have mf: "process_file_multi_thread ?sys ''f''
      = Inr ([], [(''a'', 1), (''b'', 1), (''c'', 1), (''d'', 1)])"
    by code_simp
  have mg: "process_file_multi_thread ?sys ''g'' = Inr ([], [(''x'', 1), (''y'', 1)])"
    by code_simp
  have h3: "list_all2 (\<lambda>file m. \<exists>diag. process_file_multi_thread ?sys file = Inr (diag, m))
      [''f'', ''g''] [[(''a'', 1), (''b'', 1), (''c'', 1), (''d'', 1)], [(''x'', 1), (''y'', 1)]]"
    using mf mg by simp
  have h4: "mset [1, 0] = mset [0..<length [''f'', ''g'']]"
    by simp
  show ?thesis
    using fork_total_is_sum_of_reports [OF h1 h2 h3 h4, of 0] h1 h4 by simp
qed

section \<open>Well-formed result maps\<close>

lemma islower_tolower: "isalpha c \<Longrightarrow> islower (tolower c)"
  by (auto simp add: isalpha_def tolower_def islower_def Let_def)

lemma fst_add_count: "fst ` set (add_count k d m) = insert k (fst ` set m)"
  by (auto simp add: add_count_def image_iff split: prod.splits if_splits) force+

lemma map_fst_add_count_present:
  "k \<in> fst ` set m \<Longrightarrow> map fst (add_count k d m) = map fst m"
  by (induction m) (auto simp add: add_count_def)

lemma distinct_add_count: "distinct (map fst m) \<Longrightarrow> distinct (map fst (add_count k d m))"
proof (cases "k \<in> fst ` set m")
  case True
  assume "distinct (map fst m)"
  then show ?thesis using True by (simp add: map_fst_add_count_present)
next
  case False
  assume "distinct (map fst m)"
  then show ?thesis using False by (simp add: add_count_def)
qed

lemma count_mass_update:
  assumes "distinct (map fst m)" and "(k, v) \<in> set m" and "count_mass m + unat d < 2 ^ 32"
  shows "count_mass (map (\<lambda>(k', v). if k' = k then (k', v + d) else (k', v)) m) = count_mass m + unat d"
  using assms
proof (induction m)
  case Nil
  then show ?case by simp
next
  case (Cons e m)
  obtain k0 v0 where e: "e = (k0, v0)" by (cases e)
  show ?case
  proof (cases "k0 = k")
    case True
    then have notin: "k \<notin> fst ` set m"
      using Cons.prems(1) e by auto
    then have same: "map (\<lambda>(k', v). if k' = k then (k', v + d) else (k', v)) m = m"
      by (induction m) auto
    have "unat v0 + unat d < 2 ^ 32"
      using Cons.prems(3) e by (simp add: count_mass_def)
    then have "unat (v0 + d) = unat v0 + unat d"
      by (simp add: unat_add_lem [THEN iffD1])
    then show ?thesis
      using True e same by (simp add: count_mass_def)
  next
    case False
    have "distinct (map fst m)"
      using Cons.prems(1) by simp
    moreover have "(k, v) \<in> set m"
      using False Cons.prems(2) e by auto
    moreover have "count_mass m + unat d < 2 ^ 32"
      using Cons.prems(3) by (simp add: count_mass_def)
    ultimately have "count_mass (map (\<lambda>(k', v). if k' = k then (k', v + d) else (k', v)) m)
        = count_mass m + unat d"
      by (rule Cons.IH)
    then show ?thesis
      using False e by (simp add: count_mass_def)
  qed
qed

lemma count_mass_add_count:
  assumes "distinct (map fst m)" and "count_mass m + unat d < 2 ^ 32"
  shows "count_mass (add_count k d m) = count_mass m + unat d"
proof (cases "k \<in> fst ` set m")
  case True
  then obtain v where "(k, v) \<in> set m" by auto
  then show ?thesis
    using True assms by (simp add: add_count_def count_mass_update)
next
  case False
  then show ?thesis
    by (simp add: add_count_def count_mass_def)
qed

lemma good_keys_add_count:
  assumes "good_keys m" and "k \<noteq> []" and "list_all islower k" and "1 \<le> unat d"
    and "count_mass m + unat d < 2 ^ 32"
  shows "good_keys (add_count k d m)"
proof -
  have d: "distinct (map fst m)"
    using assms(1) by (simp add: good_keys_def)
  have pos: "1 \<le> unat v'" if "(k', v') \<in> set (add_count k d m)" for k' v'
  proof (cases "k \<in> fst ` set m")
    case False
    then show ?thesis
      using that assms(1,4) by (auto simp add: add_count_def good_keys_def)
  next
    case True
    then have "(k', v') \<in> (\<lambda>(k', v). if k' = k then (k', v + d) else (k', v)) ` set m"
      using that by (simp add: add_count_def)
    then obtain k0 v0 where "(k0, v0) \<in> set m"
      and "(k', v') = (if k0 = k then (k0, v0 + d) else (k0, v0))"
      by auto
    then have old: "(k', v0) \<in> set m" and v': "v' = (if k' = k then v0 + d else v0)"
      by (auto split: if_splits)
    have "unat v0 \<in> set (map (\<lambda>e. unat (snd e)) m)"
      using old by force
    then have "unat v0 \<le> count_mass m"
      unfolding count_mass_def by (simp add: member_le_sum_list)
    then have "unat v0 + unat d < 2 ^ 32"
      using assms(5) by simp
    then have "unat (v0 + d) = unat v0 + unat d"
      by (simp add: unat_add_lem [THEN iffD1])
    moreover have "1 \<le> unat v0"
      using old assms(1) by (auto simp add: good_keys_def)
    ultimately show ?thesis
      using v' by simp
  qed
  have keys: "k' \<noteq> [] \<and> list_all islower k'" if "(k', v') \<in> set (add_count k d m)" for k' v'
  proof -
    have "k' \<in> fst ` set (add_count k d m)"
      using that by force
    then have "k' = k \<or> k' \<in> fst ` set m"
      by (simp add: fst_add_count)
    then show ?thesis
      using assms(1,2,3) by (auto simp add: good_keys_def)
  qed
  show ?thesis
    using distinct_add_count [OF d, of k d] pos keys
    by (auto simp add: good_keys_def)
qed

text \<open>The loop: the counts never exceed the number of characters read.\<close>

lemma scan_text_invariant:
  assumes "good_keys m" and "list_all islower word"
    and "count_mass m + length word + length cs < 2 ^ 32"
  shows "good_keys (snd (scan_text cs word m))
       \<and> list_all islower (fst (scan_text cs word m))
       \<and> count_mass (snd (scan_text cs word m)) + length (fst (scan_text cs word m))
            \<le> count_mass m + length word + length cs"
  using assms
proof (induction cs word m rule: scan_text.induct)
  case (1 word m)
  then show ?case by simp
next
  case (2 c cs word m)
  show ?case
  proof (cases "isalpha c")
    case True
    have "list_all islower (word @ [tolower c])"
      using "2.prems"(2) True by (simp add: islower_tolower)
    moreover have "count_mass m + length (word @ [tolower c]) + length cs < 2 ^ 32"
      using "2.prems"(3) by simp
    ultimately show ?thesis
      using "2.IH"(1) [OF True "2.prems"(1)] True by simp
  next
    case False
    show ?thesis
    proof (cases "word = []")
      case True
      have "count_mass m + length word + length cs < 2 ^ 32"
        using "2.prems"(3) by simp
      then show ?thesis
        using "2.IH"(3) [OF False _ "2.prems"(1,2)] False True by simp
    next
      case nonempty: False
      have room: "count_mass m + unat (1 :: cint) < 2 ^ 32"
        using "2.prems"(3) by simp
      have g: "good_keys (add_count word 1 m)"
        using "2.prems"(1) nonempty "2.prems"(2) _ room by (rule good_keys_add_count) simp
      have mass: "count_mass (add_count word 1 m) = count_mass m + 1"
        using "2.prems"(1) room by (simp add: count_mass_add_count good_keys_def)
      have "length word \<ge> 1"
        using nonempty by (cases word) simp_all
      then have "count_mass (add_count word 1 m) + length ([] :: string) + length cs < 2 ^ 32"
        using "2.prems"(3) mass by simp
      then show ?thesis
        using "2.IH"(2) [OF False nonempty g] False nonempty mass \<open>length word \<ge> 1\<close> by simp
    qed
  qed
qed

lemma good_keys_Nil: "good_keys []"
  by (simp add: good_keys_def)

lemma local_word_count_invariant:
  assumes "length text_part < 2 ^ 32"
  shows "good_keys (local_word_count text_part)
       \<and> count_mass (local_word_count text_part) \<le> length text_part"
proof -
  obtain word m where r: "scan_text text_part [] [] = (word, m)"
    by (cases "scan_text text_part [] []")
  have "count_mass [] + length ([] :: string) + length text_part < 2 ^ 32"
    using assms by (simp add: count_mass_def)
  then have inv: "good_keys m \<and> list_all islower word \<and> count_mass m + length word \<le> length text_part"
    using scan_text_invariant [OF good_keys_Nil, of "[]" text_part] r
    by (simp add: count_mass_def)
  show ?thesis
  proof (cases "word = []")
    case True
    then show ?thesis
      using inv r by (simp add: local_word_count_def)
  next
    case False
    then have one: "1 \<le> length word"
      by (cases word) simp_all
    then have room: "count_mass m + unat (1 :: cint) < 2 ^ 32"
      using inv assms by simp
    have "good_keys (add_count word 1 m)"
      using inv False room by (intro good_keys_add_count) simp_all
    moreover have "count_mass (add_count word 1 m) = count_mass m + 1"
      using inv room by (simp add: count_mass_add_count good_keys_def)
    ultimately show ?thesis
      using inv r False one by (simp add: local_word_count_def)
  qed
qed

lemma good_keys_tail: "good_keys (e # m) \<Longrightarrow> good_keys m"
  by (simp add: good_keys_def)

lemma merge_counts_invariant:
  assumes "good_keys local_count" and "good_keys shared"
    and "count_mass shared + count_mass local_count < 2 ^ 32"
  shows "good_keys (merge_counts local_count shared)
       \<and> count_mass (merge_counts local_count shared) = count_mass shared + count_mass local_count"
  using assms
proof (induction local_count arbitrary: shared)
  case Nil
  then show ?case by (simp add: merge_counts_def count_mass_def)
next
  case (Cons e local_count)
  obtain k v where e: "e = (k, v)" by (cases e)
  have head: "k \<noteq> []" "list_all islower k" "1 \<le> unat v"
    using Cons.prems(1) e by (simp_all add: good_keys_def)
  have split: "count_mass (e # local_count) = unat v + count_mass local_count"
    using e by (simp add: count_mass_def)
  have room: "count_mass shared + unat v < 2 ^ 32"
    using Cons.prems(3) split by simp
  have g: "good_keys (add_count k v shared)"
    using Cons.prems(2) head room by (rule good_keys_add_count)
  have mass: "count_mass (add_count k v shared) = count_mass shared + unat v"
    using Cons.prems(2) room by (simp add: count_mass_add_count good_keys_def)
  have "count_mass (add_count k v shared) + count_mass local_count < 2 ^ 32"
    using Cons.prems(3) split mass by simp
  then have "good_keys (merge_counts local_count (add_count k v shared))
       \<and> count_mass (merge_counts local_count (add_count k v shared))
           = count_mass (add_count k v shared) + count_mass local_count"
    using good_keys_tail [OF Cons.prems(1)] g by (intro Cons.IH)
  then show ?case
    using e mass split by (simp add: merge_counts_def)
qed

lemma run_workers_invariant:
  assumes "good_keys shared" and "count_mass shared + sum_list (map length parts) < 2 ^ 32"
  shows "good_keys (foldl (\<lambda>shared part. count_words part shared) shared parts)
       \<and> count_mass (foldl (\<lambda>shared part. count_words part shared) shared parts)
            \<le> count_mass shared + sum_list (map length parts)"
  using assms
proof (induction parts arbitrary: shared)
  case Nil
  then show ?case by simp
next
  case (Cons part parts)
  have short: "length part < 2 ^ 32"
    using Cons.prems(2) by simp
  note loc = local_word_count_invariant [OF short]
  have room: "count_mass shared + count_mass (local_word_count part) < 2 ^ 32"
    using Cons.prems(2) loc by simp
  have merged: "good_keys (count_words part shared)
      \<and> count_mass (count_words part shared) = count_mass shared + count_mass (local_word_count part)"
    unfolding count_words_def using loc Cons.prems(1) room by (intro merge_counts_invariant) simp_all
  then have "count_mass (count_words part shared) + sum_list (map length parts) < 2 ^ 32"
    using Cons.prems(2) loc by simp
  then have "good_keys (foldl (\<lambda>shared part. count_words part shared) (count_words part shared) parts)
       \<and> count_mass (foldl (\<lambda>shared part. count_words part shared) (count_words part shared) parts)
            \<le> count_mass (count_words part shared) + sum_list (map length parts)"
    using merged by (intro Cons.IH) simp_all
  then show ?case
    using merged loc by simp
qed

lemma those_map_Some:
  "those (map f xs) = Some ys \<Longrightarrow> ys = map (\<lambda>x. the (f x)) xs \<and> (\<forall>x \<in> set xs. f x \<noteq> None)"
  by (induction xs arbitrary: ys) (auto split: option.splits)

lemma sum_list_bounded:
  fixes f :: "'a \<Rightarrow> nat"
  shows "\<forall>x \<in> set xs. f x \<le> c \<Longrightarrow> sum_list (map f xs) \<le> length xs * c"
  by (induction xs) auto

lemma split_parts_lengths:
  assumes "split_parts s = Some parts"
  shows "sum_list (map length parts) \<le> length s"
proof -
  let ?f = "\<lambda>i. substr s (part_pos i (length s)) (part_len (length s))"
  have parts: "parts = map (\<lambda>i. the (?f i)) [0..<MAX_THREADS]"
    and defined: "\<forall>i \<in> set [0..<MAX_THREADS]. ?f i \<noteq> None"
    using those_map_Some [of ?f "[0..<MAX_THREADS]" parts] assms
    by (simp_all add: split_parts_def)
  have "\<forall>i \<in> set [0..<MAX_THREADS]. length (the (?f i)) \<le> part_len (length s)"
    using defined by (auto simp add: substr_def split: if_splits)
  then have "sum_list (map (\<lambda>i. length (the (?f i))) [0..<MAX_THREADS])
      \<le> length [0..<MAX_THREADS] * part_len (length s)"
    by (rule sum_list_bounded)
  moreover have "sum_list (map length parts) = sum_list (map (\<lambda>i. length (the (?f i))) [0..<MAX_THREADS])"
    by (simp add: parts comp_def)
  moreover have "length [0..<MAX_THREADS] * part_len (length s) \<le> length s"
    by (simp add: part_len_def MAX_THREADS_def)
  ultimately show ?thesis
    by simp
qed

lemma sint_small:
  fixes v :: cint
  assumes "unat v < 2 ^ 31"
  shows "sint v = int (unat v)"
proof -
  have "int (unat v) < int (2 ^ 31)"
    using assms by (simp only: of_nat_less_iff)
  then have hi: "uint v < 2 ^ (32 - Suc 0)"
    by simp
  have "(0 :: int) \<le> uint v"
    by simp
  then have lo: "- (2 ^ (32 - Suc 0)) \<le> uint v"
    by (rule order_trans [rotated]) simp
  have "signed_take_bit (32 - Suc 0) (uint v) = uint v"
    using lo hi by (rule signed_take_bit_int_eq_self)
  then show ?thesis
    by (simp add: sint_uint)
qed

lemma well_formed_from_mass:
  assumes "good_keys m" and "count_mass m < 2 ^ 31"
  shows "well_formed m"
proof -
  have "k \<noteq> [] \<and> list_all islower k \<and> 1 \<le> sint v" if "(k, v) \<in> set m" for k v
  proof -
    have "unat v \<in> set (map (\<lambda>e. unat (snd e)) m)"
      using that by force
    then have "unat v \<le> count_mass m"
      unfolding count_mass_def by (simp add: member_le_sum_list)
    then have "unat v < 2 ^ 31"
      using assms(2) by simp
    then have "sint v = int (unat v)"
      by (rule sint_small)
    moreover have "1 \<le> unat v"
      using that assms(1) by (auto simp add: good_keys_def)
    ultimately have "1 \<le> sint v"
      by linarith
    then show ?thesis
      using that assms(1) by (auto simp add: good_keys_def)
  qed
  then show ?thesis
    by (auto simp add: well_formed_def list_all_iff)
qed

text \<open>
  Claim C10 (well-formed result maps). For a file of fewer than \<open>2 ^ 31\<close>
  characters (beyond that a counter could overflow) the map of the single-threaded
  path, the local map of a worker and the merged map of the multi-threaded path
  have only nonempty lowercase words as keys and counts of at least 1. For a file
  that cannot be opened the maps are empty.
\<close>

theorem result_maps_well_formed:
  assumes "\<forall>buf. open_file sys f = Some buf \<longrightarrow> length buf < 2 ^ 31"
  shows "well_formed (snd (process_file_single_thread sys f))
       \<and> (\<forall>text_part. length text_part < 2 ^ 31 \<longrightarrow> well_formed (local_word_count text_part))
       \<and> (\<forall>diag m. process_file_multi_thread sys f = Inr (diag, m) \<longrightarrow> well_formed m)"
proof (intro conjI allI impI)
  show "well_formed (snd (process_file_single_thread sys f))"
  proof (cases "open_file sys f")
    case None
    then show ?thesis
      by (simp add: process_file_single_thread_def well_formed_def)
  next
    case (Some buf)
    then have len: "length buf < 2 ^ 31"
      using assms by simp
    then have "count_mass [] + length ([] :: string) + length buf < 2 ^ 32"
      by (simp add: count_mass_def)
    then have "good_keys (snd (scan_text buf [] []))
        \<and> count_mass (snd (scan_text buf [] [])) \<le> length buf"
      using scan_text_invariant [OF good_keys_Nil, of "[]" buf] by (simp add: count_mass_def)
    then have "well_formed (snd (scan_text buf [] []))"
      using len by (intro well_formed_from_mass) simp_all
    then show ?thesis
      using Some by (simp add: process_file_single_thread_def)
  qed
next
  fix text_part :: string
  assume len: "length text_part < 2 ^ 31"
  then have "length text_part < 2 ^ 32"
    by simp
  then show "well_formed (local_word_count text_part)"
    using local_word_count_invariant [of text_part] len by (intro well_formed_from_mass) simp_all
next
  fix diag m
  assume run: "process_file_multi_thread sys f = Inr (diag, m)"
  show "well_formed m"
  proof (cases "open_file sys f")
    case None
    then show ?thesis
      using run by (simp add: process_file_multi_thread_def well_formed_def)
  next
    case (Some buf)
    then have len: "length buf < 2 ^ 31"
      using assms by simp
    from run Some obtain parts where parts: "split_parts buf = Some parts" and m: "m = run_workers parts"
      by (auto simp add: process_file_multi_thread_def split: option.splits)
    have total: "sum_list (map length parts) \<le> length buf"
      using parts by (rule split_parts_lengths)
    then have "count_mass [] + sum_list (map length parts) < 2 ^ 32"
      using len by (simp add: count_mass_def)
    then have "good_keys m \<and> count_mass m \<le> sum_list (map length parts)"
      using run_workers_invariant [OF good_keys_Nil, of parts] m
      by (simp add: run_workers_def count_mass_def)
    then show ?thesis
      using total len by (intro well_formed_from_mass) simp_all
  qed
qed

theorem result_maps_well_formed_witness:
  "well_formed (snd (process_file_single_thread (sunny_os [(''f'', ''the cat sat '')]) ''f''))
   \<and> well_formed (local_word_count ''at '')
   \<and> process_file_multi_thread (sunny_os [(''f'', ''the cat sat '')]) ''f''
       = Inr ([], [(''the'', 1), (''ca'', 1), (''t'', 1), (''s'', 1), (''at'', 1)])
   \<and> well_formed [(''the'', 1), (''ca'', 1), (''t'', 1), (''s'', 1), (''at'', 1)]"
proof -
  have small: "\<forall>buf. open_file (sunny_os [(''f'', ''the cat sat '')]) ''f'' = Some buf
      \<longrightarrow> length buf < 2 ^ 31"
    by (simp add: sunny_os_def)
  have part: "length ''at '' < (2 :: nat) ^ 31"
    by simp
  have run: "process_file_multi_thread (sunny_os [(''f'', ''the cat sat '')]) ''f''
       = Inr ([], [(''the'', 1), (''ca'', 1), (''t'', 1), (''s'', 1), (''at'', 1)])"
    by code_simp
  show ?thesis
    using result_maps_well_formed [OF small] part run by blast
qed

section \<open>The split in closed form\<close>

text \<open>
  For a buffer of fewer than \<open>2 ^ 62\<close> characters the product \<open>i * length\<close> does
  not wrap: part \<open>i\<close> is the \<open>length div MAX_THREADS\<close> characters from position
  \<open>i * length div MAX_THREADS\<close>, \<open>substr\<close> never throws, and when \<open>MAX_THREADS\<close>
  divides the length the parts, one after the other, are the buffer. So the
  mismatch of the two counting paths on such a buffer does not come from
  characters left out.
\<close>

lemma part_pos_small:
  assumes "i < MAX_THREADS" and "len < 2 ^ 62"
  shows "part_pos i len = i * len div MAX_THREADS"
proof -
  have "i * len \<le> 3 * len"
    using assms(1) by (simp add: MAX_THREADS_def)
  also have "\<dots> < 2 ^ 64"
    using assms(2) by simp
  finally have small: "i * len < 2 ^ 64" .
  have "(word_of_nat i * word_of_nat len :: size_t) = word_of_nat (i * len)"
    by simp
  then have "unat (word_of_nat i * word_of_nat len :: size_t) = i * len"
    using small by (simp only: unat_of_nat) simp
  moreover have "unat (word_of_nat MAX_THREADS :: size_t) = MAX_THREADS"
    by (simp add: MAX_THREADS_def)
  ultimately show ?thesis
    by (simp add: part_pos_def unat_div)
qed

lemma those_map_all_Some:
  "\<forall>x \<in> set xs. f x = Some (g x) \<Longrightarrow> those (map f xs) = Some (map g xs)"
  by (induction xs) simp_all

lemma split_parts_closed_form:
  assumes "length s < 2 ^ 62"
  shows "split_parts s
    = Some (map (\<lambda>i. take (length s div MAX_THREADS) (drop (i * length s div MAX_THREADS) s))
                [0..<MAX_THREADS])"
proof -
  have "substr s (part_pos i (length s)) (part_len (length s))
      = Some (take (length s div MAX_THREADS) (drop (i * length s div MAX_THREADS) s))"
    if "i \<in> set [0..<MAX_THREADS]" for i
  proof -
    have i: "i < MAX_THREADS"
      using that by simp
    then have "i * length s \<le> MAX_THREADS * length s"
      by simp
    then have "i * length s div MAX_THREADS \<le> MAX_THREADS * length s div MAX_THREADS"
      by (rule div_le_mono)
    then have "i * length s div MAX_THREADS \<le> length s"
      by (simp add: MAX_THREADS_def)
    then show ?thesis
      using part_pos_small [OF i assms] by (simp add: substr_def part_len_def)
  qed
  then show ?thesis
    unfolding split_parts_def by (intro those_map_all_Some) blast
qed

lemma upt_MAX_THREADS: "[0..<MAX_THREADS] = [0, 1, 2, 3]"
  by (simp add: MAX_THREADS_def upt_conv_Cons)

lemma split_parts_exact:
  assumes "MAX_THREADS dvd length s" and "length s < 2 ^ 62"
  shows "\<exists>parts. split_parts s = Some parts \<and> concat parts = s"
proof -
  from assms(1) obtain q where q: "length s = 4 * q"
    by (auto simp add: MAX_THREADS_def)
  have last: "take q (drop (3 * q) s) = drop (3 * q) s"
    using q by simp
  have step: "take q (drop a s) @ drop (a + q) s = drop a s" for a
    using append_take_drop_id [of q "drop a s"] by (simp add: add.commute)
  have third: "take q (drop (2 * q) s) @ drop (3 * q) s = drop (2 * q) s"
    using step [of "2 * q"] by simp
  have second: "take q (drop q s) @ drop (2 * q) s = drop q s"
    using step [of q] by (simp add: mult_2)
  have whole: "take q s @ take q (drop q s) @ take q (drop (2 * q) s) @ take q (drop (3 * q) s) = s"
    by (simp only: last third second append_take_drop_id)
  have "split_parts s = Some [take q s, take q (drop q s), take q (drop (2 * q) s), take q (drop (3 * q) s)]"
    using split_parts_closed_form [OF assms(2)] q
    by (simp add: upt_MAX_THREADS) (simp add: MAX_THREADS_def)
  then show ?thesis
    using whole by simp
qed

lemma process_file_multi_thread_returns:
  assumes "open_file sys f = Some buf" and "length buf < 2 ^ 62"
    and "\<forall>i < MAX_THREADS. pthread_create sys f i = 0"
  shows "\<exists>parts. split_parts buf = Some parts
           \<and> process_file_multi_thread sys f = Inr ([], run_workers parts)"
proof -
  have "find (\<lambda>i. pthread_create sys f i \<noteq> 0) [0..<MAX_THREADS] = None"
    using assms(3) by (simp add: find_None_iff)
  then show ?thesis
    using assms(1) split_parts_closed_form [OF assms(2)]
    by (simp add: process_file_multi_thread_def)
qed

section \<open>The order of the merges\<close>

text \<open>
  The workers take the lock in any order. The entries of the shared map do not
  depend on it: merging the parts in any order gives the same entries as merging
  them in the order of the worker index.
\<close>

lemma map_of_bump_all:
  "map_of (map (\<lambda>(k', v). if k' = k then (k', v + d) else (k', v)) m) x
     = (if x = k then map_option (\<lambda>v. v + d) (map_of m x) else map_of m x)"
  by (induction m) auto

lemma map_of_add_count:
  "map_of (add_count k d m) = (map_of m)(k \<mapsto> count_of m k + d)"
proof (cases "k \<in> fst ` set m")
  case True
  then obtain v where v: "map_of m k = Some v"
    by (metis domD dom_map_of_conv_image_fst)
  show ?thesis
  proof
    fix x
    show "map_of (add_count k d m) x = ((map_of m)(k \<mapsto> count_of m k + d)) x"
      using True v by (simp add: add_count_def map_of_bump_all count_of_def)
  qed
next
  case False
  then have none: "map_of m k = None"
    by (simp add: map_of_eq_None_iff)
  show ?thesis
  proof
    fix x
    show "map_of (add_count k d m) x = ((map_of m)(k \<mapsto> count_of m k + d)) x"
      using False none by (auto simp add: add_count_def count_of_def map_add_def split: option.splits)
  qed
qed

lemma map_of_merge_counts:
  assumes "distinct (map fst local_count)"
  shows "map_of (merge_counts local_count shared) k
     = (case map_of local_count k of
          None \<Rightarrow> map_of shared k
        | Some v \<Rightarrow> Some (count_of shared k + v))"
  using assms
proof (induction local_count arbitrary: shared)
  case Nil
  then show ?case by (simp add: merge_counts_def)
next
  case (Cons e local_count)
  obtain k0 v0 where e: "e = (k0, v0)" by (cases e)
  have d: "distinct (map fst local_count)" and fresh: "map_of local_count k0 = None"
    using Cons.prems e by (simp_all add: map_of_eq_None_iff)
  have unfold: "merge_counts (e # local_count) shared = merge_counts local_count (add_count k0 v0 shared)"
    using e by (simp add: merge_counts_def)
  show ?case
  proof (cases "k = k0")
    case True
    then show ?thesis
      using Cons.IH [OF d, of "add_count k0 v0 shared"] fresh e unfold
      by (simp add: map_of_add_count)
  next
    case False
    then have "count_of (add_count k0 v0 shared) k = count_of shared k"
      by (simp add: count_of_def map_of_add_count)
    then show ?thesis
      using Cons.IH [OF d, of "add_count k0 v0 shared"] False e unfold
      by (simp add: map_of_add_count split: option.splits)
  qed
qed

lemma distinct_merge_counts:
  "distinct (map fst shared) \<Longrightarrow> distinct (map fst (merge_counts local_count shared))"
  unfolding merge_counts_def
  by (induction local_count arbitrary: shared) (auto simp add: distinct_add_count)

lemma distinct_scan_text:
  "distinct (map fst m) \<Longrightarrow> distinct (map fst (snd (scan_text cs word m)))"
  by (induction cs word m rule: scan_text.induct) (auto simp add: distinct_add_count)

lemma distinct_local_word_count: "distinct (map fst (local_word_count text_part))"
proof -
  have "distinct (map fst (snd (scan_text text_part [] [])))"
    by (rule distinct_scan_text) simp
  then show ?thesis
    by (auto simp add: local_word_count_def distinct_add_count split: prod.splits)
qed

text \<open>
  The shared map after the workers have merged in any order: a word is present when
  some worker found it, and its count is the sum of the workers' counts.
\<close>

lemma map_of_workers:
  "map_of (foldl (\<lambda>shared part. count_words part shared) shared parts) k
     = (if k \<in> dom (map_of shared) \<or> (\<exists>p \<in> set parts. k \<in> dom (map_of (local_word_count p)))
        then Some (count_of shared k + sum_list (map (\<lambda>p. count_of (local_word_count p) k) parts))
        else None)"
proof (induction parts arbitrary: shared)
  case Nil
  then show ?case
    by (auto simp add: count_of_def)
next
  case (Cons part parts)
  have after: "map_of (count_words part shared) k
     = (case map_of (local_word_count part) k of
          None \<Rightarrow> map_of shared k
        | Some v \<Rightarrow> Some (count_of shared k + v))"
    unfolding count_words_def by (rule map_of_merge_counts) (rule distinct_local_word_count)
  then have dom: "k \<in> dom (map_of (count_words part shared))
      \<longleftrightarrow> k \<in> dom (map_of shared) \<or> k \<in> dom (map_of (local_word_count part))"
    by (auto split: option.splits)
  have cnt: "count_of (count_words part shared) k = count_of shared k + count_of (local_word_count part) k"
    using after by (auto simp add: count_of_def split: option.splits)
  show ?case
    using Cons.IH [of "count_words part shared"] dom cnt
    by (simp add: add.assoc)
qed

lemma distinct_workers:
  "distinct (map fst shared)
     \<Longrightarrow> distinct (map fst (foldl (\<lambda>shared part. count_words part shared) shared parts))"
  by (induction parts arbitrary: shared) (simp_all add: count_words_def distinct_merge_counts)

lemma run_workers_any_order:
  assumes "mset parts' = mset parts"
  shows "set (run_workers parts') = set (run_workers parts)"
proof -
  have sets: "set parts' = set parts"
    using assms by (rule mset_eq_setD)
  have sums: "sum_list (map (\<lambda>p. count_of (local_word_count p) k) parts')
      = sum_list (map (\<lambda>p. count_of (local_word_count p) k) parts)" for k
  proof -
    have "sum_mset (mset (map (\<lambda>p. count_of (local_word_count p) k) parts'))
        = sum_mset (mset (map (\<lambda>p. count_of (local_word_count p) k) parts))"
      using assms by simp
    then show ?thesis
      by (simp only: sum_mset_sum_list)
  qed
  have "map_of (run_workers parts') = map_of (run_workers parts)"
  proof
    fix k
    show "map_of (run_workers parts') k = map_of (run_workers parts) k"
      unfolding run_workers_def map_of_workers by (simp only: sets sums)
  qed
  moreover have "distinct (map fst (run_workers parts'))" and "distinct (map fst (run_workers parts))"
    unfolding run_workers_def by (rule distinct_workers, simp)+
  ultimately show ?thesis
    by (simp add: map_of_inject_set)
qed

end
